theory Spec2Isabelle
  imports Main
begin

text \<open>
  A model of the client-side router of \<open>router.go\<close>: the compilation of path templates
  into regular expressions (\<open>newRoute\<close>), the choice of the best matching route
  (\<open>findBestRoute\<close>), dispatch (\<open>pathChanged\<close>), navigation over the two backends
  (\<open>Navigate\<close>, \<open>Start\<close>, the hash and history callbacks) and the interception of link
  clicks (\<open>InterceptLinks\<close>, \<open>interceptLink\<close>). The router's own functions are
  translated from the source. What it calls in the Go library and in the browser is
  modelled as far as the router uses it: package \<open>strings\<close>, a fragment of package
  \<open>regexp\<close>, the click listeners of anchors, and a trace of the calls made to the host.
\<close>

section \<open>Strings\<close>

text \<open>
  Go strings are byte sequences; \<open>string\<close> (a list of 8-bit characters) models them
  directly. \<open>strings_Split s c\<close> is \<open>strings.Split(s, sep)\<close> for the one-byte separator
  \<open>c\<close>: the pieces between the separators, one more than there are separators.
\<close>

fun strings_Split :: "string \<Rightarrow> char \<Rightarrow> string list" where
  "strings_Split [] c = [[]]"
| "strings_Split (x # xs) c =
     (if x = c then [] # strings_Split xs c
      else (case strings_Split xs c of
              [] \<Rightarrow> [[x]]
            | piece # pieces \<Rightarrow> (x # piece) # pieces))"

text \<open>
  \<open>strings.SplitN(s, sep, 2)\<close> for a one-byte separator: one piece when the separator
  does not occur, otherwise the text before the first separator and the text after it.
\<close>

definition strings_SplitN2 :: "string \<Rightarrow> char \<Rightarrow> string list" where
  "strings_SplitN2 s c =
     (if c \<in> set s then [takeWhile (\<lambda>x. x \<noteq> c) s, tl (dropWhile (\<lambda>x. x \<noteq> c) s)]
      else [s])"

definition strings_HasPrefix :: "string \<Rightarrow> string \<Rightarrow> bool" where
  "strings_HasPrefix s p = (take (length p) s = p)"

section \<open>The regular expressions of package regexp\<close>

text \<open>
  The router hands the pattern text it builds to \<open>regexp.MustCompile\<close> and matches paths
  with \<open>FindStringSubmatch\<close>. Package \<open>regexp\<close> belongs to the Go library, not to the
  router; it is modelled here for a fragment of its syntax: ASCII literals, escaped
  punctuation, the classes \<open>\w\<close> and \<open>\d\<close>, positive bracket classes with ranges,
  capturing groups, alternation, the greedy operators \<open>*\<close>, \<open>+\<close>, \<open>?\<close>, and the anchors
  \<open>^\<close> and \<open>$\<close>. A pattern that the library rejects is \<open>Invalid\<close> (there
  \<open>MustCompile\<close> panics); a pattern outside the fragment is \<open>Unsupported\<close>, and nothing is
  said about it.
\<close>

datatype compile_error = Invalid | Unsupported

datatype token =
    TLit char
  | TCls "(char \<times> char) list"
  | TOpen | TClose | TStar | TPlus | TQuest | TBar | TBol | TEol

definition code :: "char \<Rightarrow> nat" where
  "code c = of_char c"

definition isdigit :: "char \<Rightarrow> bool" where
  "isdigit c = (48 \<le> code c \<and> code c \<le> 57)"

definition isalnum :: "char \<Rightarrow> bool" where
  "isalnum c = (isdigit c \<or> (65 \<le> code c \<and> code c \<le> 90) \<or> (97 \<le> code c \<and> code c \<le> 122))"

definition nonascii :: "char \<Rightarrow> bool" where
  "nonascii c = (128 \<le> code c)"

definition digitRanges :: "(char \<times> char) list" where
  "digitRanges = [(CHR ''0'', CHR ''9'')]"

definition wordRanges :: "(char \<times> char) list" where
  "wordRanges = [(CHR ''0'', CHR ''9''), (CHR ''A'', CHR ''Z''), (CHR ''_'', CHR ''_''),
                 (CHR ''a'', CHR ''z'')]"

text \<open>
  The body of a bracket class, after the opening bracket: a closing bracket ends the class
  unless it comes first; \<open>\w\<close> and \<open>\d\<close> add their ranges; \<open>lo-hi\<close> is a range unless the
  dash is the last character of the class. The result is the class and the text after it.
\<close>

fun tokenizeClass ::
  "bool \<Rightarrow> (char \<times> char) list \<Rightarrow> string \<Rightarrow> compile_error + ((char \<times> char) list \<times> string)" where
  "tokenizeClass first acc [] = Inl Invalid"
| "tokenizeClass first acc (c # cs) =
     (if c = CHR '']'' \<and> \<not> first then Inr (acc, cs)
      else if nonascii c then Inl Unsupported
      else if c = CHR ''['' \<and> strings_HasPrefix cs '':'' then Inl Unsupported
      else if c = CHR 0x5C then
        (case cs of
           [] \<Rightarrow> Inl Invalid
         | d # ds \<Rightarrow>
             if d = CHR ''w'' then tokenizeClass False (acc @ wordRanges) ds
             else if d = CHR ''d'' then tokenizeClass False (acc @ digitRanges) ds
             else Inl Unsupported)
      else
        (case cs of
           dash # hi # ds \<Rightarrow>
             if dash = CHR ''-'' \<and> hi \<noteq> CHR '']'' then
               (if hi = CHR 0x5C \<or> nonascii hi then Inl Unsupported
                else if code hi < code c then Inl Invalid
                else tokenizeClass False (acc @ [(c, hi)]) ds)
             else tokenizeClass False (acc @ [(c, c)]) cs
         | _ \<Rightarrow> tokenizeClass False (acc @ [(c, c)]) cs))"

lemma tokenizeClass_shorter:
  "tokenizeClass first acc cs = Inr (rs, rest) \<Longrightarrow> length rest < length cs"
proof (induction cs arbitrary: first acc rule: length_induct)
  case (1 cs)
  have IH: "length rest < length ys"
    if "tokenizeClass f a ys = Inr (rs, rest)" "length ys < length cs" for ys f a
    using 1(1) that by blast
  show ?case
  proof (cases cs)
    case Nil
    with 1(2) show ?thesis by simp
  next
    case (Cons c cs')
    from 1(2) show ?thesis
      unfolding Cons
      apply (subst (asm) tokenizeClass.simps)
      apply (simp del: tokenizeClass.simps split: if_splits list.splits)
      by (auto simp del: tokenizeClass.simps simp: Cons dest!: IH)
  qed
qed

declare tokenizeClass.simps [simp del]

definition consToken :: "token \<Rightarrow> compile_error + token list \<Rightarrow> compile_error + token list" where
  "consToken t r = (case r of Inl e \<Rightarrow> Inl e | Inr ts \<Rightarrow> Inr (t # ts))"

lemma consToken_cong [fundef_cong]: "t = t' \<Longrightarrow> r = r' \<Longrightarrow> consToken t r = consToken t' r'"
  by simp

function tokenize :: "string \<Rightarrow> compile_error + token list" where
  "tokenize [] = Inr []"
| "tokenize (c # cs) =
     (if nonascii c then Inl Unsupported
      else if c = CHR 0x5C then
        (case cs of
           [] \<Rightarrow> Inl Invalid
         | d # ds \<Rightarrow>
             if d = CHR ''w'' then consToken (TCls wordRanges) (tokenize ds)
             else if d = CHR ''d'' then consToken (TCls digitRanges) (tokenize ds)
             else if \<not> nonascii d \<and> \<not> isalnum d then consToken (TLit d) (tokenize ds)
             else Inl Unsupported)
      else if c = CHR ''['' then
        (if strings_HasPrefix cs ''^'' then Inl Unsupported
         else (case tokenizeClass True [] cs of
                 Inl e \<Rightarrow> Inl e
               | Inr (rs, rest) \<Rightarrow> consToken (TCls rs) (tokenize rest)))
      else if c = CHR ''('' then
        (if strings_HasPrefix cs ''?'' then Inl Unsupported
         else consToken TOpen (tokenize cs))
      else if c = CHR '')'' then consToken TClose (tokenize cs)
      else if c = CHR ''*'' then consToken TStar (tokenize cs)
      else if c = CHR ''+'' then consToken TPlus (tokenize cs)
      else if c = CHR ''?'' then consToken TQuest (tokenize cs)
      else if c = CHR ''|'' then consToken TBar (tokenize cs)
      else if c = CHR ''^'' then consToken TBol (tokenize cs)
      else if c = CHR ''$'' then consToken TEol (tokenize cs)
      else if c = CHR ''.'' then Inl Unsupported
      else if c = CHR ''{'' \<and> (case cs of [] \<Rightarrow> False | d # _ \<Rightarrow> isdigit d) then Inl Unsupported
      else consToken (TLit c) (tokenize cs))"
  by pat_completeness auto

termination
  by (relation "measure length") (auto dest: tokenizeClass_shorter)

declare tokenize.simps [simp del]

text \<open>
  The syntax tree. \<open>RGrp i r\<close> is the \<open>i\<close>-th capturing group, numbered from 1 in the
  order of the opening parentheses; \<open>x+\<close> is kept as \<open>x\<close> followed by \<open>x*\<close>.
\<close>

datatype syntax_Regexp =
    REmp
  | RLit char
  | RCls "(char \<times> char) list"
  | RBol
  | REol
  | RCat syntax_Regexp syntax_Regexp
  | RAlt syntax_Regexp syntax_Regexp
  | RStar syntax_Regexp
  | RQuest syntax_Regexp
  | RGrp nat syntax_Regexp

text \<open>
  The parser keeps, as the library's parser does, a stack: one frame for each open
  parenthesis, holding the group's number and the alternatives and the items read before
  it. \<open>alts\<close> are the finished alternatives of the innermost open group and \<open>items\<close> the
  items of its current alternative, both latest first. \<open>n\<close> counts the groups opened
  so far, and \<open>rep\<close> tells that the previous token was a repetition operator: a second
  operator after it is rejected, except \<open>?\<close>, which would make it non-greedy.
\<close>

definition mkCat :: "syntax_Regexp list \<Rightarrow> syntax_Regexp" where
  "mkCat items = foldl (\<lambda>r x. RCat x r) REmp items"

fun mkAlt :: "syntax_Regexp list \<Rightarrow> syntax_Regexp" where
  "mkAlt [] = REmp"
| "mkAlt [a] = a"
| "mkAlt (a # as) = RAlt (mkAlt as) a"

type_synonym frame = "nat \<times> syntax_Regexp list \<times> syntax_Regexp list"

fun parse ::
  "token list \<Rightarrow> frame list \<Rightarrow> syntax_Regexp list \<Rightarrow> syntax_Regexp list \<Rightarrow> nat \<Rightarrow> bool
     \<Rightarrow> compile_error + (syntax_Regexp \<times> nat)" where
  "parse [] stack alts items n rep =
     (if stack = [] then Inr (mkAlt (mkCat items # alts), n) else Inl Invalid)"
| "parse (TLit c # ts) stack alts items n rep = parse ts stack alts (RLit c # items) n False"
| "parse (TCls rs # ts) stack alts items n rep = parse ts stack alts (RCls rs # items) n False"
| "parse (TBol # ts) stack alts items n rep = parse ts stack alts (RBol # items) n False"
| "parse (TEol # ts) stack alts items n rep = parse ts stack alts (REol # items) n False"
| "parse (TOpen # ts) stack alts items n rep =
     parse ts ((Suc n, alts, items) # stack) [] [] (Suc n) False"
| "parse (TClose # ts) stack alts items n rep =
     (case stack of
        [] \<Rightarrow> Inl Invalid
      | (i, alts', items') # stack' \<Rightarrow>
          parse ts stack' alts' (RGrp i (mkAlt (mkCat items # alts)) # items') n False)"
| "parse (TBar # ts) stack alts items n rep = parse ts stack (mkCat items # alts) [] n False"
| "parse (TStar # ts) stack alts items n rep =
     (if rep then Inl Invalid
      else (case items of
              [] \<Rightarrow> Inl Invalid
            | x # items' \<Rightarrow> parse ts stack alts (RStar x # items') n True))"
| "parse (TPlus # ts) stack alts items n rep =
     (if rep then Inl Invalid
      else (case items of
              [] \<Rightarrow> Inl Invalid
            | x # items' \<Rightarrow> parse ts stack alts (RCat x (RStar x) # items') n True))"
| "parse (TQuest # ts) stack alts items n rep =
     (if rep then Inl Unsupported
      else (case items of
              [] \<Rightarrow> Inl Invalid
            | x # items' \<Rightarrow> parse ts stack alts (RQuest x # items') n True))"

text \<open>
  A compiled expression: its syntax tree and \<open>NumSubexp\<close>, the number of its capturing
  groups.
\<close>

record Regexp =
  prog :: syntax_Regexp
  NumSubexp :: nat

definition regexp_Compile :: "string \<Rightarrow> compile_error + Regexp" where
  "regexp_Compile pattern =
     (case tokenize pattern of
        Inl e \<Rightarrow> Inl e
      | Inr ts \<Rightarrow>
          (case parse ts [] [] [] 0 False of
             Inl e \<Rightarrow> Inl e
           | Inr (r, n) \<Rightarrow> Inr \<lparr>prog = r, NumSubexp = n\<rparr>))"

subsection \<open>Matching\<close>

text \<open>
  A matching state is the position in the text, the text still to read, and the captures
  (index 0 is kept for the whole match). \<open>matches r st\<close> lists the states in which \<open>r\<close> can
  end when started in \<open>st\<close>, in the order in which a backtracking search tries them: the
  left alternative before the right one, one more iteration before stopping. The library
  returns the match such a search finds first. An iteration of \<open>*\<close> that reads nothing is
  not repeated.
\<close>

type_synonym mstate = "nat \<times> string \<times> string list"

definition inClass :: "(char \<times> char) list \<Rightarrow> char \<Rightarrow> bool" where
  "inClass rs c = list_ex (\<lambda>(lo, hi). code lo \<le> code c \<and> code c \<le> code hi) rs"

fun matches :: "syntax_Regexp \<Rightarrow> mstate \<Rightarrow> mstate list" where
  "matches REmp st = [st]"
| "matches (RLit c) (p, s, caps) =
     (case s of [] \<Rightarrow> [] | x # xs \<Rightarrow> if x = c then [(Suc p, xs, caps)] else [])"
| "matches (RCls rs) (p, s, caps) =
     (case s of [] \<Rightarrow> [] | x # xs \<Rightarrow> if inClass rs x then [(Suc p, xs, caps)] else [])"
| "matches RBol (p, s, caps) = (if p = 0 then [(p, s, caps)] else [])"
| "matches REol (p, s, caps) = (if s = [] then [(p, s, caps)] else [])"
| "matches (RCat a b) st = concat (map (matches b) (matches a st))"
| "matches (RAlt a b) st = matches a st @ matches b st"
| "matches (RQuest a) st = matches a st @ [st]"
| "matches (RStar a) (p, s, caps) =
     concat (map (\<lambda>st'. if length (fst (snd st')) < length s then matches (RStar a) st' else [])
               (matches a (p, s, caps)))
     @ [(p, s, caps)]"
| "matches (RGrp i a) (p, s, caps) =
     map (\<lambda>(p', s', caps'). (p', s', caps'[i := take (p' - p) s])) (matches a (p, s, caps))"

text \<open>
  \<open>FindStringSubmatch\<close>: the leftmost match, tried from every start position in turn.
  The result holds the matched text and then the text of each group (empty for a group
  that took no part), so its length is \<open>1 + NumSubexp\<close>; \<open>None\<close> is the nil slice.
\<close>

fun findFrom :: "Regexp \<Rightarrow> nat \<Rightarrow> string \<Rightarrow> string list option" where
  "findFrom re p s =
     (case matches (prog re) (p, s, replicate (Suc (NumSubexp re)) []) of
        (p', s', caps) # _ \<Rightarrow> Some (caps[0 := take (p' - p) s])
      | [] \<Rightarrow> (case s of [] \<Rightarrow> None | _ # s' \<Rightarrow> findFrom re (Suc p) s'))"

definition FindStringSubmatch :: "Regexp \<Rightarrow> string \<Rightarrow> string list option" where
  "FindStringSubmatch re s = findFrom re 0 s"

section \<open>Routes\<close>

text \<open>
  Panics of the Go runtime and of \<open>regexp.MustCompile\<close> are values of \<open>error\<close>. A
  \<open>Handler\<close> is a callback of the application; the model keeps it as a value of the type
  parameter \<open>'h\<close> and records each call of it.
\<close>

datatype error = IndexOutOfRange | SliceOutOfRange | CompileError compile_error

record 'h route =
  regex :: Regexp
  paramNames :: "string list"
  handler :: 'h

fun removeEmptyStrings_loop :: "string list \<Rightarrow> string list \<Rightarrow> string list" where
  "removeEmptyStrings_loop [] result = result"
| "removeEmptyStrings_loop (s # strings) result =
     (if s \<noteq> [] then removeEmptyStrings_loop strings (result @ [s])
      else removeEmptyStrings_loop strings result)"

definition removeEmptyStrings :: "string list \<Rightarrow> string list" where
  "removeEmptyStrings strings = removeEmptyStrings_loop strings []"

definition capturePattern :: string where
  "capturePattern = ''(['' @ [CHR 0x5C] @ ''w+-]*)''"

text \<open>
  The loop of \<open>newRoute\<close> over the segments, with the pattern and the parameter names
  built so far. \<open>str[0]\<close> panics on an empty segment and \<open>str[1:len(str)-1]\<close> on a
  segment shorter than two bytes.
\<close>

fun newRoute_loop :: "string list \<Rightarrow> string \<Rightarrow> string list \<Rightarrow> error + (string \<times> string list)" where
  "newRoute_loop [] pattern names = Inr (pattern, names)"
| "newRoute_loop (str # strs) pattern names =
     (if str = [] then Inl IndexOutOfRange
      else if hd str = CHR ''{'' \<and> last str = CHR ''}'' then
        (if length str - 1 < 1 then Inl SliceOutOfRange
         else newRoute_loop strs (pattern @ ''/'' @ capturePattern)
                (names @ [drop 1 (take (length str - 1) str)]))
      else newRoute_loop strs (pattern @ ''/'' @ str) names)"

definition newRoute :: "string \<Rightarrow> 'h \<Rightarrow> error + 'h route" where
  "newRoute path h =
     (case newRoute_loop (removeEmptyStrings (strings_Split path CHR ''/'')) ''^'' [] of
        Inl e \<Rightarrow> Inl e
      | Inr (pattern, names) \<Rightarrow>
          (case regexp_Compile (pattern @ ''/?$'') of
             Inl e \<Rightarrow> Inl (CompileError e)
           | Inr re \<Rightarrow> Inr \<lparr>regex = re, paramNames = names, handler = h\<rparr>))"

section \<open>The router and its host\<close>

text \<open>
  \<open>listener\<close> is the handle that \<open>AddEventListener\<close> returned last, if any. Each call of
  \<open>AddEventListener\<close> wraps the callback in a new function value, so handles are fresh
  numbers.
\<close>

record 'h Router =
  routes :: "'h route list"
  ShouldInterceptLinks :: bool
  listener :: "nat option"

definition New :: "'h Router" where
  "New = \<lparr>routes = [], ShouldInterceptLinks = False, listener = None\<rparr>"

definition HandleFunc :: "string \<Rightarrow> 'h \<Rightarrow> 'h Router \<Rightarrow> error + 'h Router" where
  "HandleFunc path h r =
     (case newRoute path h of
        Inl e \<Rightarrow> Inl e
      | Inr rt \<Rightarrow> Inr (r\<lparr>routes := routes r @ [rt]\<rparr>))"

text \<open>
  The host is the browser: the anchors of the document in document order, each with its
  \<open>href\<close> attribute and the click listeners installed on it; what \<open>location.hash\<close> and
  \<open>location.pathname\<close> report; whether the two global callbacks are set; and the trace of
  the calls the router made and of the goroutines it started. What the browser does in
  answer to a call (firing \<open>hashchange\<close> after the hash was set, say) is not part of the
  router and not modelled: a goroutine started with \<open>go\<close> is recorded, and its body is a
  function of its own.
\<close>

datatype task = NavigateTask string | HashChangeTask | PopStateTask

datatype 'h event =
    PushState string
  | SetHash string
  | HistoryBack
  | HandlerCall 'h "string \<rightharpoonup> string"
  | LogFatal string
  | PreventDefault
  | Go task

record link =
  href :: string
  clickListeners :: "nat list"

record 'h host =
  browserSupportsPushState :: bool
  links :: "link list"
  location_hash :: string
  location_pathname :: string
  onpopstate :: bool
  onhashchange :: bool
  nextListener :: nat
  trace :: "'h event list"

type_synonym 'h state = "'h Router \<times> 'h host"

datatype outcome = Returned | Exited | Panicked error

definition emit :: "'h event \<Rightarrow> 'h host \<Rightarrow> 'h host" where
  "emit e h = h\<lparr>trace := trace h @ [e]\<rparr>"

definition getHash :: "'h host \<Rightarrow> string" where
  "getHash h = location_hash h"

definition getPath :: "'h host \<Rightarrow> string" where
  "getPath h = location_pathname h"

definition setHash :: "string \<Rightarrow> 'h host \<Rightarrow> 'h host" where
  "setHash hash h = emit (SetHash hash) h"

definition pushState :: "string \<Rightarrow> 'h host \<Rightarrow> 'h host" where
  "pushState path h = emit (PushState path) h"

subsection \<open>Best match and dispatch\<close>

text \<open>
  The loop of \<open>findBestRoute\<close> with its three variables; \<open>None\<close> is the nil route.
  \<open>matches[1:]\<close> is \<open>drop 1\<close>: a non-nil result of \<open>FindStringSubmatch\<close> has at least
  one element.
\<close>

fun findBestRoute_loop ::
  "'h route list \<Rightarrow> string \<Rightarrow> int \<times> 'h route option \<times> string list
     \<Rightarrow> int \<times> 'h route option \<times> string list" where
  "findBestRoute_loop [] path st = st"
| "findBestRoute_loop (rt # rts) path (leastParams, bestRoute, tokens) =
     (case FindStringSubmatch (regex rt) path of
        None \<Rightarrow> findBestRoute_loop rts path (leastParams, bestRoute, tokens)
      | Some ms \<Rightarrow>
          if leastParams = - 1 \<or> int (length ms) < leastParams
          then findBestRoute_loop rts path (int (length ms), Some rt, drop 1 ms)
          else findBestRoute_loop rts path (leastParams, bestRoute, tokens))"

definition findBestRoute :: "'h Router \<Rightarrow> string \<Rightarrow> 'h route option \<times> string list" where
  "findBestRoute r path = snd (findBestRoute_loop (routes r) path (- 1, None, []))"

text \<open>
  The loop of \<open>pathChanged\<close> that fills the parameter map; \<open>paramNames[i]\<close> panics when
  there are more tokens than names.
\<close>

fun makeParams ::
  "string list \<Rightarrow> nat \<Rightarrow> string list \<Rightarrow> (string \<rightharpoonup> string) \<Rightarrow> error + (string \<rightharpoonup> string)" where
  "makeParams names i [] params = Inr params"
| "makeParams names i (token # tokens) params =
     (if i < length names then makeParams names (Suc i) tokens (params(names ! i \<mapsto> token))
      else Inl IndexOutOfRange)"

definition pathChanged :: "string \<Rightarrow> 'h state \<Rightarrow> outcome \<times> 'h state" where
  "pathChanged path st =
     (case st of (r, h) \<Rightarrow>
        (case findBestRoute r path of
           (None, tokens) \<Rightarrow>
             (Exited, (r, emit (LogFatal (''Could not find route to match: '' @ path)) h))
         | (Some bestRoute, tokens) \<Rightarrow>
             (case makeParams (paramNames bestRoute) 0 tokens Map.empty of
                Inl e \<Rightarrow> (Panicked e, (r, h))
              | Inr params \<Rightarrow> (Returned, (r, emit (HandlerCall (handler bestRoute) params) h)))))"

subsection \<open>Link interception\<close>

definition AddEventListener :: "nat \<Rightarrow> link \<Rightarrow> link" where
  "AddEventListener l a =
     a\<lparr>clickListeners := (if l \<in> set (clickListeners a) then clickListeners a
                           else clickListeners a @ [l])\<rparr>"

definition RemoveEventListener :: "nat \<Rightarrow> link \<Rightarrow> link" where
  "RemoveEventListener l a = a\<lparr>clickListeners := removeAll l (clickListeners a)\<rparr>"

text \<open>
  The loop of \<open>InterceptLinks\<close>: the anchors already passed, the anchors still to visit,
  the router's \<open>listener\<close> field and the next fresh handle. The three \<open>return\<close>
  statements leave the loop and the function; a target that no case of the \<open>switch\<close>
  matches goes on to the next anchor.
\<close>

fun InterceptLinks_loop ::
  "link list \<Rightarrow> link list \<Rightarrow> nat option \<Rightarrow> nat \<Rightarrow> link list \<times> nat option \<times> nat" where
  "InterceptLinks_loop seen [] l n = (seen, l, n)"
| "InterceptLinks_loop seen (a # rest) l n =
     (if href a = [] then (seen @ a # rest, l, n)
      else if strings_HasPrefix (href a) ''http://'' \<or> strings_HasPrefix (href a) ''https://''
              \<or> strings_HasPrefix (href a) ''//''
           then (seen @ a # rest, l, n)
      else if strings_HasPrefix (href a) ''#'' then (seen @ a # rest, l, n)
      else if strings_HasPrefix (href a) ''/'' then
        (let a' = (case l of None \<Rightarrow> a | Some old \<Rightarrow> RemoveEventListener old a)
         in InterceptLinks_loop (seen @ [AddEventListener n a']) rest (Some n) (Suc n))
      else InterceptLinks_loop (seen @ [a]) rest l n)"

definition InterceptLinks :: "'h state \<Rightarrow> 'h state" where
  "InterceptLinks st =
     (case st of (r, h) \<Rightarrow>
        (case InterceptLinks_loop [] (links h) (listener r) (nextListener h) of
           (ls, l, n) \<Rightarrow> (r\<lparr>listener := l\<rparr>, h\<lparr>links := ls, nextListener := n\<rparr>)))"

text \<open>
  The click callback, for a click whose \<open>CurrentTarget\<close> is the anchor \<open>a\<close>.
\<close>

definition interceptLink :: "link \<Rightarrow> 'h state \<Rightarrow> outcome \<times> 'h state" where
  "interceptLink a st =
     (case st of (r, h) \<Rightarrow>
        (let path = href a in
         if fst (findBestRoute r path) \<noteq> None
         then (Returned, (r, emit (Go (NavigateTask path)) (emit PreventDefault h)))
         else (Returned, (r, h))))"

subsection \<open>Navigation\<close>

definition Navigate :: "string \<Rightarrow> 'h state \<Rightarrow> outcome \<times> 'h state" where
  "Navigate path st =
     (case st of (r, h) \<Rightarrow>
        (case (if browserSupportsPushState h then pathChanged path (r, pushState path h)
               else (Returned, (r, setHash path h))) of
           (Returned, st') \<Rightarrow>
             (Returned, if ShouldInterceptLinks (fst st') then InterceptLinks st' else st')
         | (out, st') \<Rightarrow> (out, st')))"

definition Back :: "'h state \<Rightarrow> outcome \<times> 'h state" where
  "Back st =
     (case st of (r, h) \<Rightarrow>
        (Returned, if ShouldInterceptLinks r then InterceptLinks (r, emit HistoryBack h)
                   else (r, emit HistoryBack h)))"

text \<open>
  \<open>strings.SplitN(hash, "#", 2)[1]\<close>: the index panics when there is one piece only.
\<close>

definition getPathFromHash :: "string \<Rightarrow> error + string" where
  "getPathFromHash hash =
     (let pieces = strings_SplitN2 hash CHR ''#''
      in if 1 < length pieces then Inr (pieces ! 1) else Inl IndexOutOfRange)"

definition setInitialHash :: "'h state \<Rightarrow> outcome \<times> 'h state" where
  "setInitialHash st =
     (case st of (r, h) \<Rightarrow>
        if getHash h = [] then (Returned, (r, setHash ''/'' h))
        else (case getPathFromHash (getHash h) of
                Inl e \<Rightarrow> (Panicked e, (r, h))
              | Inr path \<Rightarrow> pathChanged path (r, h)))"

text \<open>
  \<open>watchHash\<close> and \<open>watchHistory\<close> set the global callbacks. Each callback starts a
  goroutine; \<open>hashChanged\<close> and \<open>popState\<close> are the bodies of the two goroutines.
\<close>

definition watchHash :: "'h state \<Rightarrow> 'h state" where
  "watchHash st = (case st of (r, h) \<Rightarrow> (r, h\<lparr>onhashchange := True\<rparr>))"

definition watchHistory :: "'h state \<Rightarrow> 'h state" where
  "watchHistory st = (case st of (r, h) \<Rightarrow> (r, h\<lparr>onpopstate := True\<rparr>))"

definition onhashchange_callback :: "'h state \<Rightarrow> 'h state" where
  "onhashchange_callback st = (case st of (r, h) \<Rightarrow> (r, emit (Go HashChangeTask) h))"

definition onpopstate_callback :: "'h state \<Rightarrow> 'h state" where
  "onpopstate_callback st = (case st of (r, h) \<Rightarrow> (r, emit (Go PopStateTask) h))"

definition hashChanged :: "'h state \<Rightarrow> outcome \<times> 'h state" where
  "hashChanged st =
     (case st of (r, h) \<Rightarrow>
        (case getPathFromHash (getHash h) of
           Inl e \<Rightarrow> (Panicked e, (r, h))
         | Inr path \<Rightarrow> pathChanged path (r, h)))"

definition popState :: "'h state \<Rightarrow> outcome \<times> 'h state" where
  "popState st =
     (case st of (r, h) \<Rightarrow>
        (case pathChanged (getPath h) (r, h) of
           (Returned, st') \<Rightarrow>
             (Returned, if ShouldInterceptLinks (fst st') then InterceptLinks st' else st')
         | (out, st') \<Rightarrow> (out, st')))"

definition Start :: "'h state \<Rightarrow> outcome \<times> 'h state" where
  "Start st =
     (case (if browserSupportsPushState (snd st) then (Returned, watchHistory st)
            else (case setInitialHash st of
                    (Returned, st') \<Rightarrow> (Returned, watchHash st')
                  | (out, st') \<Rightarrow> (out, st'))) of
        (Returned, st') \<Rightarrow>
          (Returned, if ShouldInterceptLinks (fst st') then InterceptLinks st' else st')
      | (out, st') \<Rightarrow> (out, st'))"

definition Stop :: "'h state \<Rightarrow> 'h state" where
  "Stop st =
     (case st of (r, h) \<Rightarrow>
        if browserSupportsPushState h then (r, h\<lparr>onpopstate := False\<rparr>)
        else (r, h\<lparr>onhashchange := False\<rparr>))"

definition runTask :: "task \<Rightarrow> 'h state \<Rightarrow> outcome \<times> 'h state" where
  "runTask t st =
     (case t of
        NavigateTask path \<Rightarrow> Navigate path st
      | HashChangeTask \<Rightarrow> hashChanged st
      | PopStateTask \<Rightarrow> popState st)"

text \<open>
  A host for the examples: the hash backend or the history backend, given anchors and a
  given hash, nothing else set.
\<close>

definition exampleHost :: "bool \<Rightarrow> string list \<Rightarrow> string \<Rightarrow> nat host" where
  "exampleHost pushStateSupported hrefs hash =
     \<lparr>browserSupportsPushState = pushStateSupported,
      links = map (\<lambda>t. \<lparr>href = t, clickListeners = []\<rparr>) hrefs,
      location_hash = hash, location_pathname = ''/'',
      onpopstate = False, onhashchange = False, nextListener = 0, trace = []\<rparr>"

section \<open>The specification's vocabulary\<close>

text \<open>
  The definitions of this section follow the words of the specification, not the code;
  the theorems compare them with the code. A segment is a parameter placeholder when it
  is wrapped in braces; the segments of a template are the non-empty pieces between
  slashes; the pattern of a template is \<open>^\<close>, then a slash and the segment's pattern for
  each segment, then \<open>/?$\<close>; the parameter names are the placeholders without their
  braces, in order.
\<close>

definition isParam :: "string \<Rightarrow> bool" where
  "isParam str = (str \<noteq> [] \<and> hd str = CHR ''{'' \<and> last str = CHR ''}'')"

definition segments :: "string \<Rightarrow> string list" where
  "segments path = filter (\<lambda>s. s \<noteq> []) (strings_Split path CHR ''/'')"

definition segmentPattern :: "string \<Rightarrow> string" where
  "segmentPattern str = (if isParam str then capturePattern else str)"

definition routePattern :: "string \<Rightarrow> string" where
  "routePattern path =
     ''^'' @ concat (map (\<lambda>str. ''/'' @ segmentPattern str) (segments path)) @ ''/?$''"

definition routeParamNames :: "string \<Rightarrow> string list" where
  "routeParamNames path = map (\<lambda>str. butlast (tl str)) (filter isParam (segments path))"

text \<open>
  A literal segment is regex-safe when it is ASCII and holds none of the characters that
  mean something in a regular expression (those that \<open>regexp.QuoteMeta\<close> escapes). The
  capturable alphabet is the word characters with \<open>+\<close> and \<open>-\<close>.
\<close>

definition regexSafe :: "char \<Rightarrow> bool" where
  "regexSafe c = (\<not> nonascii c \<and> c \<notin> set (CHR 0x5C # ''.+*?()|[]{}^$''))"

definition safeSegment :: "string \<Rightarrow> bool" where
  "safeSegment str = (isParam str \<or> (\<forall>c \<in> set str. regexSafe c))"



text \<open>
  \<open>bestAt rts path i ms\<close>: the route at index \<open>i\<close> matches \<open>path\<close> with the groups \<open>ms\<close>,
  no matching route has fewer groups, and every matching route registered before it has
  more. \<open>routesAligned r\<close>: every route of the table has as many parameter names as its
  expression has capturing groups.
\<close>

definition bestAt :: "'h route list \<Rightarrow> string \<Rightarrow> nat \<Rightarrow> string list \<Rightarrow> bool" where
  "bestAt rts path i ms =
     (i < length rts \<and> FindStringSubmatch (regex (rts ! i)) path = Some ms \<and>
      (\<forall>j < length rts. \<forall>ms'. FindStringSubmatch (regex (rts ! j)) path = Some ms' \<longrightarrow>
          length ms \<le> length ms' \<and> (j < i \<longrightarrow> length ms < length ms')))"


text \<open>The router of the examples: \<open>/todos/work\<close> and then \<open>/todos/{category}\<close>.\<close>

definition todosRouter :: "nat Router" where
  "todosRouter =
     (case HandleFunc ''/todos/work'' 1 New of
        Inl e \<Rightarrow> New
      | Inr r1 \<Rightarrow> (case HandleFunc ''/todos/{category}'' 2 r1 of Inl e \<Rightarrow> New | Inr r2 \<Rightarrow> r2))"

text \<open>
  What the compiler makes of a template with regex-safe literals, for the proofs: the
  tokens and the items of the segments, the syntax tree, the class and the group of a
  placeholder; the first result of the backtracking search; the captures after a list
  of values.
\<close>

definition captureRanges :: "(char \<times> char) list" where
  "captureRanges = wordRanges @ [(CHR ''+'', CHR ''+''), (CHR ''-'', CHR ''-'')]"

definition captureGroup :: syntax_Regexp where
  "captureGroup = RCat (RStar (RCls captureRanges)) REmp"

fun routeItems :: "nat \<Rightarrow> string list \<Rightarrow> syntax_Regexp list" where
  "routeItems n [] = []"
| "routeItems n (str # strs) =
     (if isParam str then RLit CHR ''/'' # RGrp (Suc n) captureGroup # routeItems (Suc n) strs
      else RLit CHR ''/'' # map RLit str @ routeItems n strs)"

definition segmentTokens :: "string \<Rightarrow> token list" where
  "segmentTokens str =
     TLit CHR ''/'' # (if isParam str then [TOpen, TCls captureRanges, TStar, TClose]
                       else map TLit str)"

definition routeProg :: "string list \<Rightarrow> syntax_Regexp" where
  "routeProg strs = foldr RCat (RBol # routeItems 0 strs @ [RQuest (RLit CHR ''/''), REol]) REmp"



section \<open>Properties of the matcher\<close>


declare matches.simps(9) [simp del]




lemma findBestRoute_loop_append:
  "findBestRoute_loop (xs @ ys) path st = findBestRoute_loop ys path (findBestRoute_loop xs path st)"
proof (induction xs path st rule: findBestRoute_loop.induct)
  case (1 path st)
  then show ?case by simp
next
  case (2 rt rts path leastParams bestRoute tokens)
  then show ?case by (simp split: option.splits)
qed

lemma bestAt_snoc_nomatch:
  "bestAt xs path i ms \<Longrightarrow> FindStringSubmatch (regex x) path = None \<Longrightarrow> bestAt (xs @ [x]) path i ms"
  unfolding bestAt_def by (auto simp: nth_append less_Suc_eq)

lemma bestAt_snoc_keep:
  "bestAt xs path i ms \<Longrightarrow> FindStringSubmatch (regex x) path = Some m \<Longrightarrow> \<not> length m < length ms
   \<Longrightarrow> bestAt (xs @ [x]) path i ms"
  unfolding bestAt_def by (auto simp: nth_append less_Suc_eq)

lemma bestAt_snoc_first:
  assumes "\<forall>rt \<in> set xs. FindStringSubmatch (regex rt) path = None"
    and "FindStringSubmatch (regex x) path = Some m"
  shows "bestAt (xs @ [x]) path (length xs) m"
  using assms unfolding bestAt_def by (auto simp: nth_append less_Suc_eq)

lemma bestAt_snoc_better:
  assumes b: "bestAt xs path i ms"
    and m: "FindStringSubmatch (regex x) path = Some m"
    and lt: "length m < length ms"
  shows "bestAt (xs @ [x]) path (length xs) m"
  unfolding bestAt_def
proof (intro conjI allI impI)
  show "length xs < length (xs @ [x])" by simp
  show "FindStringSubmatch (regex ((xs @ [x]) ! length xs)) path = Some m" using m by simp
next
  fix j ms'
  assume j: "j < length (xs @ [x])"
    and ms': "FindStringSubmatch (regex ((xs @ [x]) ! j)) path = Some ms'"
  show "length m \<le> length ms'"
  proof (cases "j < length xs")
    case True
    with ms' have "FindStringSubmatch (regex (xs ! j)) path = Some ms'" by (simp add: nth_append)
    with b True have "length ms \<le> length ms'" unfolding bestAt_def by blast
    with lt show ?thesis by simp
  next
    case False
    with j have "j = length xs" by simp
    with ms' m show ?thesis by simp
  qed
  assume "j < length xs"
  with ms' have "FindStringSubmatch (regex (xs ! j)) path = Some ms'" by (simp add: nth_append)
  with b \<open>j < length xs\<close> have "length ms \<le> length ms'" unfolding bestAt_def by blast
  with lt show "length m < length ms'" by simp
qed

lemma findBestRoute_loop_spec:
  "findBestRoute_loop rts path (- 1, None, []) = (lp, best, toks) \<Longrightarrow>
   (if \<forall>rt \<in> set rts. FindStringSubmatch (regex rt) path = None
    then lp = - 1 \<and> best = None \<and> toks = []
    else \<exists>i ms. bestAt rts path i ms \<and> best = Some (rts ! i) \<and> lp = int (length ms)
           \<and> toks = drop 1 ms)"
proof (induction rts arbitrary: lp best toks rule: rev_induct)
  case Nil
  then show ?case by simp
next
  case (snoc x xs)
  obtain lp0 b0 t0 where st0: "findBestRoute_loop xs path (- 1, None, []) = (lp0, b0, t0)"
    by (cases "findBestRoute_loop xs path (- 1, None, [])") auto
  note IH = snoc.IH[OF st0]
  from snoc.prems have step: "findBestRoute_loop [x] path (lp0, b0, t0) = (lp, best, toks)"
    by (simp add: findBestRoute_loop_append st0)
  let ?none = "\<lambda>rts. \<forall>rt \<in> set rts. FindStringSubmatch (regex rt) path = None"
  show ?case
  proof (cases "FindStringSubmatch (regex x) path")
    case None
    with step have same: "lp = lp0" "best = b0" "toks = t0" by auto
    show ?thesis
    proof (cases "?none xs")
      case True
      with IH None same show ?thesis by simp
    next
      case False
      with IH obtain i ms where b: "bestAt xs path i ms" "b0 = Some (xs ! i)" "lp0 = int (length ms)"
        "t0 = drop 1 ms" by auto
      have nth: "(xs @ [x]) ! i = xs ! i" using b(1) by (simp add: bestAt_def nth_append)
      have "bestAt (xs @ [x]) path i ms \<and> best = Some ((xs @ [x]) ! i) \<and> lp = int (length ms)
           \<and> toks = drop 1 ms"
        using bestAt_snoc_nomatch[OF b(1) None] b same nth by simp
      moreover have "\<not> ?none (xs @ [x])" using False by auto
      ultimately show ?thesis by (simp only: if_False) blast
    qed
  next
    case (Some m)
    have some: "\<not> ?none (xs @ [x])" using Some by auto
    show ?thesis
    proof (cases "?none xs")
      case True
      with IH have "lp0 = - 1" by simp
      with step Some have new: "lp = int (length m)" "best = Some x" "toks = drop 1 m" by auto
      have "bestAt (xs @ [x]) path (length xs) m \<and> best = Some ((xs @ [x]) ! length xs)
            \<and> lp = int (length m) \<and> toks = drop 1 m"
        using bestAt_snoc_first[OF True Some] new by simp
      with some show ?thesis by (simp only: if_False) blast
    next
      case False
      with IH obtain i ms where b: "bestAt xs path i ms" "b0 = Some (xs ! i)" "lp0 = int (length ms)"
        "t0 = drop 1 ms" by auto
      have nth: "(xs @ [x]) ! i = xs ! i" using b(1) by (simp add: bestAt_def nth_append)
      show ?thesis
      proof (cases "length m < length ms")
        case True
        with step Some b have new: "lp = int (length m)" "best = Some x" "toks = drop 1 m" by auto
        have "bestAt (xs @ [x]) path (length xs) m \<and> best = Some ((xs @ [x]) ! length xs)
            \<and> lp = int (length m) \<and> toks = drop 1 m"
          using bestAt_snoc_better[OF b(1) Some True] new by simp
        with some show ?thesis by (simp only: if_False) blast
      next
        case gt: False
        with step Some b have same: "lp = lp0" "best = b0" "toks = t0" by auto
        have "bestAt (xs @ [x]) path i ms \<and> best = Some ((xs @ [x]) ! i) \<and> lp = int (length ms)
           \<and> toks = drop 1 ms"
          using bestAt_snoc_keep[OF b(1) Some gt] b same nth by simp
        with some show ?thesis by (simp only: if_False) blast
      qed
    qed
  qed
qed

section \<open>Decoding the hash\<close>

lemma strings_SplitN2_found:
  assumes "c \<notin> set pre"
  shows "strings_SplitN2 (pre @ c # post) c = [pre, post]"
proof -
  have "takeWhile (\<lambda>x. x \<noteq> c) (pre @ c # post) = pre"
    using assms by (subst takeWhile_append2) auto
  moreover have "dropWhile (\<lambda>x. x \<noteq> c) (pre @ c # post) = c # post"
    using assms by (subst dropWhile_append2) auto
  ultimately show ?thesis by (simp add: strings_SplitN2_def)
qed

lemma getPathFromHash_panics: "CHR ''#'' \<notin> set hash \<Longrightarrow> getPathFromHash hash = Inl IndexOutOfRange"
  by (simp add: getPathFromHash_def strings_SplitN2_def)

lemma getPathFromHash_found:
  "CHR ''#'' \<notin> set pre \<Longrightarrow> getPathFromHash (pre @ CHR ''#'' # post) = Inr post"
  by (simp add: getPathFromHash_def strings_SplitN2_found)

text \<open>
  C10. \<open>getPathFromHash\<close> is partial: it panics with an index out of range exactly on
  the hash strings that contain no \<open>#\<close>, and otherwise returns the text after the
  first \<open>#\<close>. The goroutine of the hash-changed callback and the non-empty branch of
  \<open>setInitialHash\<close> panic in the same way when the hash the host reports has no \<open>#\<close>,
  and go on to \<open>pathChanged\<close> with the decoded path when it has one.
\<close>

theorem getPathFromHash_partial:
  "(getPathFromHash hash = Inl IndexOutOfRange \<longleftrightarrow> CHR ''#'' \<notin> set hash)
   \<and> (CHR ''#'' \<notin> set pre \<longrightarrow> getPathFromHash (pre @ CHR ''#'' # post) = Inr post)
   \<and> (CHR ''#'' \<notin> set (getHash h) \<longrightarrow> hashChanged (r, h) = (Panicked IndexOutOfRange, (r, h)))
   \<and> (getHash h \<noteq> [] \<and> CHR ''#'' \<notin> set (getHash h) \<longrightarrow>
        setInitialHash (r, h) = (Panicked IndexOutOfRange, (r, h)))
   \<and> (CHR ''#'' \<notin> set pre \<and> getHash h' = pre @ CHR ''#'' # post \<longrightarrow>
        hashChanged (r, h') = pathChanged post (r, h')
        \<and> setInitialHash (r, h') = pathChanged post (r, h'))"
proof -
  have a: "getPathFromHash hash = Inl IndexOutOfRange \<longleftrightarrow> CHR ''#'' \<notin> set hash"
    by (simp add: getPathFromHash_def strings_SplitN2_def)
  show ?thesis
    using a
    by (simp add: hashChanged_def setInitialHash_def getPathFromHash_panics getPathFromHash_found)
qed

theorem getPathFromHash_partial_witness:
  "getPathFromHash ''/x'' = Inl IndexOutOfRange
   \<and> getPathFromHash ''#/x'' = Inr ''/x''
   \<and> hashChanged (New, exampleHost False [] ''/x'')
        = (Panicked IndexOutOfRange, (New, exampleHost False [] ''/x''))
   \<and> setInitialHash (New, exampleHost False [] ''/x'')
        = (Panicked IndexOutOfRange, (New, exampleHost False [] ''/x''))
   \<and> hashChanged (New, exampleHost False [] ''#/x'')
        = pathChanged ''/x'' (New, exampleHost False [] ''#/x'')
   \<and> setInitialHash (New, exampleHost False [] ''#/x'')
        = pathChanged ''/x'' (New, exampleHost False [] ''#/x'')"
  using getPathFromHash_partial [of "''/x''" "[]" "''/x''" "exampleHost False [] ''/x''" New
      "exampleHost False [] ''#/x''"]
  by (simp add: getHash_def exampleHost_def)

section \<open>Best match\<close>

lemma findBestRoute_miss:
  assumes "\<forall>rt \<in> set (routes r). FindStringSubmatch (regex rt) path = None"
  shows "findBestRoute r path = (None, [])"
proof -
  obtain lp best toks where st: "findBestRoute_loop (routes r) path (- 1, None, []) = (lp, best, toks)"
    by (cases "findBestRoute_loop (routes r) path (- 1, None, [])") auto
  from findBestRoute_loop_spec[OF st] assms have "best = None \<and> toks = []"
    by (simp only: if_True)
  then show ?thesis by (simp add: findBestRoute_def st)
qed

lemma findBestRoute_hit:
  assumes "\<not> (\<forall>rt \<in> set (routes r). FindStringSubmatch (regex rt) path = None)"
  shows "\<exists>i ms. bestAt (routes r) path i ms \<and> findBestRoute r path = (Some (routes r ! i), drop 1 ms)"
proof -
  obtain lp best toks where st: "findBestRoute_loop (routes r) path (- 1, None, []) = (lp, best, toks)"
    by (cases "findBestRoute_loop (routes r) path (- 1, None, [])") auto
  from findBestRoute_loop_spec[OF st] assms
  obtain i ms where "bestAt (routes r) path i ms" "best = Some (routes r ! i)" "toks = drop 1 ms"
    by (simp only: if_False) blast
  then show ?thesis by (auto simp: findBestRoute_def st)
qed






lemma todosRouter_routes: "length (routes todosRouter) = 2"
  by code_simp

lemma todosRouter_work:
  "findBestRoute todosRouter ''/todos/work'' = (Some (routes todosRouter ! 0), [])"
  by code_simp




lemma todosRouter_miss:
  "\<forall>rt \<in> set (routes todosRouter). FindStringSubmatch (regex rt) ''/nonexistent'' = None"
  by code_simp


section \<open>Dispatch and link interception\<close>

text \<open>
  C7. When no registered route matches the path, \<open>pathChanged\<close> calls no handler, logs
  the fatal routing miss once and exits; the router, and with it the route table, is as
  before.
\<close>

theorem pathChanged_miss:
  assumes "\<forall>rt \<in> set (routes r). FindStringSubmatch (regex rt) path = None"
  shows "pathChanged path (r, h) =
           (Exited, (r, h\<lparr>trace := trace h @ [LogFatal (''Could not find route to match: '' @ path)]\<rparr>))"
  using findBestRoute_miss[OF assms] by (simp add: pathChanged_def emit_def)

theorem pathChanged_miss_witness:
  "pathChanged ''/nonexistent'' (todosRouter, exampleHost True [] [])
     = (Exited, (todosRouter, (exampleHost True [] [])
          \<lparr>trace := trace (exampleHost True [] [])
              @ [LogFatal (''Could not find route to match: '' @ ''/nonexistent'')]\<rparr>))"
  using pathChanged_miss [OF todosRouter_miss] by simp

text \<open>
  C8. The click callback finds a route for the target of the anchor exactly when some
  registered route matches it. Then, and only then, it prevents the default action and
  starts a goroutine that runs \<open>Navigate\<close> with the target; otherwise it changes
  nothing. It returns normally in both cases.
\<close>

theorem interceptLink_iff_match:
  "(fst (findBestRoute r (href a)) \<noteq> None \<longleftrightarrow>
      \<not> (\<forall>rt \<in> set (routes r). FindStringSubmatch (regex rt) (href a) = None))
   \<and> interceptLink a (r, h) =
       (Returned,
        (r, if fst (findBestRoute r (href a)) \<noteq> None
            then h\<lparr>trace := trace h @ [PreventDefault, Go (NavigateTask (href a))]\<rparr>
            else h))
   \<and> runTask (NavigateTask (href a)) st = Navigate (href a) st"
proof -
  have "fst (findBestRoute r (href a)) \<noteq> None \<longleftrightarrow>
      \<not> (\<forall>rt \<in> set (routes r). FindStringSubmatch (regex rt) (href a) = None)"
  proof (cases "\<forall>rt \<in> set (routes r). FindStringSubmatch (regex rt) (href a) = None")
    case True
    from findBestRoute_miss[OF True] True show ?thesis by simp
  next
    case False
    from findBestRoute_hit[OF False] False show ?thesis by auto
  qed
  then show ?thesis
    by (simp add: interceptLink_def emit_def runTask_def Let_def)
qed

theorem interceptLink_iff_match_witness:
  "interceptLink \<lparr>href = ''/todos/work'', clickListeners = [0]\<rparr> (todosRouter, exampleHost True [] [])
     = (Returned, (todosRouter, (exampleHost True [] [])
          \<lparr>trace := [PreventDefault, Go (NavigateTask ''/todos/work'')]\<rparr>))
   \<and> interceptLink \<lparr>href = ''/nonexistent'', clickListeners = [0]\<rparr> (todosRouter, exampleHost True [] [])
     = (Returned, (todosRouter, exampleHost True [] []))"
proof -
  let ?h = "exampleHost True [] [] :: nat host"
  have m1: "fst (findBestRoute todosRouter ''/todos/work'') \<noteq> None"
    using todosRouter_work by simp
  have m2: "fst (findBestRoute todosRouter ''/nonexistent'') = None"
    using findBestRoute_miss [OF todosRouter_miss] by simp
  have t: "trace ?h = []" by (simp add: exampleHost_def)
  from interceptLink_iff_match [where r = todosRouter and h = ?h
      and a = "\<lparr>href = ''/todos/work'', clickListeners = [0]\<rparr>" and st = "(todosRouter, ?h)",
      THEN conjunct2, THEN conjunct1] m1 t
  have "interceptLink \<lparr>href = ''/todos/work'', clickListeners = [0]\<rparr> (todosRouter, ?h)
     = (Returned, (todosRouter, ?h\<lparr>trace := [PreventDefault, Go (NavigateTask ''/todos/work'')]\<rparr>))"
    by simp
  moreover
  from interceptLink_iff_match [where r = todosRouter and h = ?h
      and a = "\<lparr>href = ''/nonexistent'', clickListeners = [0]\<rparr>" and st = "(todosRouter, ?h)",
      THEN conjunct2, THEN conjunct1] m2
  have "interceptLink \<lparr>href = ''/nonexistent'', clickListeners = [0]\<rparr> (todosRouter, ?h)
     = (Returned, (todosRouter, ?h))"
    by simp
  ultimately show ?thesis by simp
qed

text \<open>
  C4 says that every scan removes the listener installed before, so that after any number
  of scans each anchor holds exactly one click listener. The code does not do this for a
  document with two anchors \<open>/a\<close> and \<open>/b\<close>: the single \<open>listener\<close> field holds the handle
  installed on the anchor visited last, so the removal on the next anchor removes
  nothing. After one scan each anchor has one listener, after two scans each has two.
\<close>

theorem InterceptLinks_accumulates:
  "map clickListeners (links (snd (InterceptLinks (New, exampleHost True [''/a'', ''/b''] []))))
     = [[0], [1]]
   \<and> map clickListeners
        (links (snd (InterceptLinks (InterceptLinks (New, exampleHost True [''/a'', ''/b''] [])))))
     = [[0, 2], [1, 3]]"
  by (simp add: InterceptLinks_def exampleHost_def New_def strings_HasPrefix_def
      AddEventListener_def RemoveEventListener_def)

text \<open>
  C5 says that an anchor with an absolute target is skipped and the scan goes on to the
  anchors after it. The code returns from the scan at such an anchor, as it does at an
  empty target: the relative anchor after \<open>https://example.com\<close> gets no listener, while
  the same relative anchor placed before it gets one. The absolute anchor itself gets no
  listener in either order.
\<close>

theorem InterceptLinks_stops_at_external:
  "map clickListeners
     (links (snd (InterceptLinks (New, exampleHost True [''https://example.com'', ''/foo''] []))))
     = [[], []]
   \<and> map clickListeners
     (links (snd (InterceptLinks (New, exampleHost True [''/foo'', ''https://example.com''] []))))
     = [[0], []]"
  by (simp add: InterceptLinks_def exampleHost_def New_def strings_HasPrefix_def
      AddEventListener_def RemoveEventListener_def)









section \<open>Compiling a template\<close>

lemma removeEmptyStrings_loop_filter:
  "removeEmptyStrings_loop strs result = result @ filter (\<lambda>s. s \<noteq> []) strs"
  by (induction strs arbitrary: result) auto

lemma removeEmptyStrings_segments: "removeEmptyStrings (strings_Split path CHR ''/'') = segments path"
  by (simp add: removeEmptyStrings_def removeEmptyStrings_loop_filter segments_def)

lemma isParam_length: "isParam str \<Longrightarrow> 2 \<le> length str"
proof -
  assume a: "isParam str"
  then obtain c cs where str: "str = c # cs" by (cases str) (auto simp: isParam_def)
  with a have "cs \<noteq> []" by (auto simp: isParam_def)
  with str show ?thesis by (cases cs) auto
qed

lemma unwrap_eq: "drop (Suc 0) (take (length str - Suc 0) str) = butlast (tl str)"
  by (simp add: butlast_conv_take drop_Suc drop_take tl_take)

lemma newRoute_loop_spec:
  "\<forall>s \<in> set strs. s \<noteq> [] \<Longrightarrow>
   newRoute_loop strs pat names =
     Inr (pat @ concat (map (\<lambda>str. ''/'' @ segmentPattern str) strs),
          names @ map (\<lambda>str. butlast (tl str)) (filter isParam strs))"
proof (induction strs arbitrary: pat names)
  case Nil
  then show ?case by simp
next
  case (Cons str strs)
  then have ne: "str \<noteq> []" and rest: "\<forall>s \<in> set strs. s \<noteq> []" by simp_all
  note IH = Cons.IH[OF rest]
  have wrapped: "(hd str = CHR ''{'' \<and> last str = CHR ''}'') = isParam str"
    using ne by (simp add: isParam_def)
  show ?case
  proof (cases "isParam str")
    case True
    from isParam_length[OF True] have "\<not> length str - 1 < 1" by simp
    with True ne show ?thesis
      by (simp add: wrapped IH segmentPattern_def unwrap_eq)
  next
    case False
    with ne show ?thesis
      by (simp add: wrapped IH segmentPattern_def)
  qed
qed

lemma newRoute_spec:
  "newRoute path h =
     (case regexp_Compile (routePattern path) of
        Inl e \<Rightarrow> Inl (CompileError e)
      | Inr re \<Rightarrow> Inr \<lparr>regex = re, paramNames = routeParamNames path, handler = h\<rparr>)"
proof -
  have "\<forall>s \<in> set (segments path). s \<noteq> []" by (simp add: segments_def)
  from newRoute_loop_spec[OF this, of "''^''" "[]"] show ?thesis
    unfolding newRoute_def removeEmptyStrings_segments routePattern_def routeParamNames_def
    by simp
qed

lemma tokenize_safe:
  assumes "regexSafe c"
  shows "tokenize (c # cs) = consToken (TLit c) (tokenize cs)"
  using assms by (subst tokenize.simps) (simp add: regexSafe_def)

lemma tokenize_slash: "tokenize (CHR ''/'' # cs) = consToken (TLit CHR ''/'') (tokenize cs)"
  by (rule tokenize_safe) (simp add: regexSafe_def nonascii_def code_def)

lemma consToken_Inr: "consToken t (Inr ts) = Inr (t # ts)"
  by (simp add: consToken_def)

lemma tokenize_literals:
  assumes "\<forall>c \<in> set str. regexSafe c" and "tokenize rest = Inr ts"
  shows "tokenize (str @ rest) = Inr (map TLit str @ ts)"
  using assms by (induction str) (simp_all add: tokenize_safe consToken_Inr)

lemma tokenizeClass_capture:
  "tokenizeClass True [] (CHR 0x5C # ''w+-]'' @ rest) = Inr (captureRanges, rest)"
  by (simp add: tokenizeClass.simps captureRanges_def nonascii_def code_def strings_HasPrefix_def
      split: list.split)

lemma tokenize_capture:
  assumes "tokenize rest = Inr ts"
  shows "tokenize (capturePattern @ rest) = Inr ([TOpen, TCls captureRanges, TStar, TClose] @ ts)"
proof -
  have "tokenize (capturePattern @ rest) =
      consToken TOpen (consToken (TCls captureRanges) (tokenize (''*)'' @ rest)))"
    unfolding capturePattern_def
    apply (simp only: append_Cons append_Nil)
    apply (subst tokenize.simps)
    apply (simp add: nonascii_def code_def strings_HasPrefix_def)
    apply (subst tokenize.simps)
    using tokenizeClass_capture[of "''*)'' @ rest"]
    apply (simp add: nonascii_def code_def strings_HasPrefix_def)
    done
  also have "tokenize (''*)'' @ rest) = consToken TStar (consToken TClose (tokenize rest))"
    apply (simp only: append_Cons append_Nil)
    apply (subst tokenize.simps)
    apply (simp add: nonascii_def code_def)
    apply (subst tokenize.simps)
    apply (simp add: nonascii_def code_def)
    done
  finally show ?thesis by (simp add: assms consToken_Inr)
qed

lemma tokenize_tail: "tokenize ''/?$'' = Inr [TLit CHR ''/'', TQuest, TEol]"
  by code_simp

lemma tokenize_segments:
  assumes "\<forall>str \<in> set strs. safeSegment str" and "tokenize rest = Inr ts"
  shows "tokenize (concat (map (\<lambda>str. ''/'' @ segmentPattern str) strs) @ rest)
           = Inr (concat (map segmentTokens strs) @ ts)"
  using assms(1)
proof (induction strs)
  case Nil
  then show ?case by (simp add: assms(2))
next
  case (Cons str strs)
  then have IH: "tokenize (concat (map (\<lambda>str. ''/'' @ segmentPattern str) strs) @ rest)
           = Inr (concat (map segmentTokens strs) @ ts)" by simp
  show ?case
  proof (cases "isParam str")
    case True
    then have "segmentPattern str = capturePattern"
      "segmentTokens str = TLit CHR ''/'' # [TOpen, TCls captureRanges, TStar, TClose]"
      by (simp_all add: segmentPattern_def segmentTokens_def)
    then show ?thesis
      using tokenize_capture[OF IH]
      by (simp add: tokenize_slash consToken_Inr)
  next
    case False
    then have eq: "segmentPattern str = str" "segmentTokens str = TLit CHR ''/'' # map TLit str"
      by (simp_all add: segmentPattern_def segmentTokens_def)
    from False Cons.prems have "\<forall>c \<in> set str. regexSafe c" by (simp add: safeSegment_def)
    from tokenize_literals[OF this IH] eq show ?thesis
      by (simp add: tokenize_slash consToken_Inr)
  qed
qed

lemma tokenize_routePattern:
  assumes "\<forall>str \<in> set (segments path). safeSegment str"
  shows "tokenize (routePattern path)
           = Inr (TBol # concat (map segmentTokens (segments path)) @ [TLit CHR ''/'', TQuest, TEol])"
proof -
  have "tokenize (routePattern path)
      = consToken TBol (tokenize (concat (map (\<lambda>str. ''/'' @ segmentPattern str) (segments path)) @ ''/?$''))"
    unfolding routePattern_def
    apply (simp only: append_Cons append_Nil)
    apply (subst tokenize.simps)
    apply (simp add: nonascii_def code_def)
    done
  with tokenize_segments[OF assms tokenize_tail] show ?thesis
    by (simp add: consToken_Inr)
qed

lemma parse_literals:
  "parse (map TLit str @ ts) stack alts items n False
     = parse ts stack alts (rev (map RLit str) @ items) n False"
  by (induction str arbitrary: items) simp_all

lemma parse_segments:
  "parse (concat (map segmentTokens strs) @ ts) [] [] items n False
     = parse ts [] [] (rev (routeItems n strs) @ items) (n + length (filter isParam strs)) False"
proof (induction strs arbitrary: items n)
  case Nil
  then show ?case by simp
next
  case (Cons str strs)
  show ?case
  proof (cases "isParam str")
    case True
    then have "segmentTokens str = TLit CHR ''/'' # [TOpen, TCls captureRanges, TStar, TClose]"
      by (simp add: segmentTokens_def)
    with True show ?thesis
      by (simp add: Cons.IH mkCat_def captureGroup_def)
  next
    case False
    then have "segmentTokens str = TLit CHR ''/'' # map TLit str"
      by (simp add: segmentTokens_def)
    with False show ?thesis
      using parse_literals[of str "concat (map segmentTokens strs) @ ts" "[]" "[]"
          "RLit CHR ''/'' # items" n]
      by (simp add: Cons.IH)
  qed
qed

lemma mkCat_foldr: "mkCat items = foldr RCat (rev items) REmp"
  by (simp add: mkCat_def foldr_conv_foldl)

lemma compile_routePattern:
  assumes "\<forall>str \<in> set (segments path). safeSegment str"
  shows "regexp_Compile (routePattern path)
           = Inr \<lparr>prog = routeProg (segments path),
                  NumSubexp = length (filter isParam (segments path))\<rparr>"
proof -
  have "parse (TBol # concat (map segmentTokens (segments path)) @ [TLit CHR ''/'', TQuest, TEol])
          [] [] [] 0 False
        = Inr (routeProg (segments path), length (filter isParam (segments path)))"
    by (simp add: parse_segments mkCat_foldr routeProg_def)
  then show ?thesis
    by (simp add: regexp_Compile_def tokenize_routePattern[OF assms])
qed

lemma newRoute_safe:
  assumes "\<forall>str \<in> set (segments path). safeSegment str"
  shows "newRoute path h =
           Inr \<lparr>regex = \<lparr>prog = routeProg (segments path),
                          NumSubexp = length (filter isParam (segments path))\<rparr>,
                paramNames = routeParamNames path, handler = h\<rparr>"
  by (simp add: newRoute_spec compile_routePattern[OF assms])


lemma segments_empty: "segments [] = []"
  by (simp add: segments_def)

lemma matches_root:
  "matches (routeProg []) (n, s, caps) =
     (if n = 0 \<and> (s = [] \<or> s = ''/'') then [(n + length s, [], caps)] else [])"
proof (cases s)
  case Nil
  then show ?thesis by (simp add: routeProg_def)
next
  case (Cons c cs)
  then show ?thesis by (cases cs) (auto simp: routeProg_def)
qed

lemma findFrom_root_later:
  "findFrom \<lparr>prog = routeProg [], NumSubexp = 0\<rparr> (Suc n) s = None"
  by (induction s arbitrary: n) (simp_all add: matches_root)

lemma FindStringSubmatch_root:
  "FindStringSubmatch \<lparr>prog = routeProg [], NumSubexp = 0\<rparr> p \<noteq> None \<longleftrightarrow> p = [] \<or> p = ''/''"
proof (cases p)
  case Nil
  then show ?thesis by (simp add: FindStringSubmatch_def matches_root)
next
  case (Cons c cs)
  then show ?thesis
    using findFrom_root_later[of 0 cs]
    by (simp add: FindStringSubmatch_def matches_root)
qed

lemma segments_braces: "segments ''{}'' = [''{}''] \<and> isParam ''{}''"
  by (simp add: segments_def isParam_def)

text \<open>
  C3. \<open>newRoute\<close> splits the template on slashes and drops the empty pieces; its loop
  builds, from \<open>^\<close>, a slash and the segment's pattern for each segment (the capturing
  pattern for a segment in braces, the segment itself otherwise) and collects the names
  without their braces in order; the expression compiled is that text followed by
  \<open>/?$\<close>. The empty template compiles, has no parameter, and matches the empty path and
  \<open>/\<close> and nothing else; the template \<open>{}\<close> compiles with the one parameter name \<open>""\<close>.
\<close>

theorem newRoute_pattern:
  "removeEmptyStrings (strings_Split path CHR ''/'') = segments path
   \<and> (\<exists>pattern. newRoute_loop (segments path) ''^'' [] = Inr (pattern, routeParamNames path)
         \<and> pattern @ ''/?$'' = routePattern path)
   \<and> newRoute path f =
       (case regexp_Compile (routePattern path) of
          Inl e \<Rightarrow> Inl (CompileError e)
        | Inr re \<Rightarrow> Inr \<lparr>regex = re, paramNames = routeParamNames path, handler = f\<rparr>)
   \<and> (\<exists>rt. newRoute [] f = Inr rt \<and> paramNames rt = []
         \<and> (\<forall>p. FindStringSubmatch (regex rt) p \<noteq> None \<longleftrightarrow> p = [] \<or> p = ''/''))
   \<and> (\<exists>rt. newRoute ''{}'' f = Inr rt \<and> paramNames rt = [[]] \<and> NumSubexp (regex rt) = 1)"
proof (intro conjI)
  show "removeEmptyStrings (strings_Split path CHR ''/'') = segments path"
    by (rule removeEmptyStrings_segments)
  have "\<forall>s \<in> set (segments path). s \<noteq> []" by (simp add: segments_def)
  from newRoute_loop_spec[OF this, of "''^''" "[]"]
  show "\<exists>pattern. newRoute_loop (segments path) ''^'' [] = Inr (pattern, routeParamNames path)
         \<and> pattern @ ''/?$'' = routePattern path"
    by (simp add: routePattern_def routeParamNames_def)
  show "newRoute path f =
       (case regexp_Compile (routePattern path) of
          Inl e \<Rightarrow> Inl (CompileError e)
        | Inr re \<Rightarrow> Inr \<lparr>regex = re, paramNames = routeParamNames path, handler = f\<rparr>)"
    by (rule newRoute_spec)
  have "\<forall>str \<in> set (segments []). safeSegment str" by (simp add: segments_empty)
  from newRoute_safe[OF this, of f]
  show "\<exists>rt. newRoute [] f = Inr rt \<and> paramNames rt = []
         \<and> (\<forall>p. FindStringSubmatch (regex rt) p \<noteq> None \<longleftrightarrow> p = [] \<or> p = ''/'')"
    using FindStringSubmatch_root
    by (simp add: segments_empty routeParamNames_def)
  have "\<forall>str \<in> set (segments ''{}''). safeSegment str"
    using segments_braces by (simp add: safeSegment_def)
  from newRoute_safe[OF this, of f]
  show "\<exists>rt. newRoute ''{}'' f = Inr rt \<and> paramNames rt = [[]] \<and> NumSubexp (regex rt) = 1"
    using segments_braces by (simp add: routeParamNames_def)
qed

theorem newRoute_pattern_witness:
  "routePattern ''users//{id}/'' = ''^/users/'' @ capturePattern @ ''/?$''
   \<and> routeParamNames ''users//{id}/'' = [''id'']
   \<and> (\<exists>re. regexp_Compile (''^/users/'' @ capturePattern @ ''/?$'') = Inr re
         \<and> newRoute ''users//{id}/'' (7::nat) = Inr \<lparr>regex = re, paramNames = [''id''], handler = 7\<rparr>)"
proof -
  have p: "routePattern ''users//{id}/'' = ''^/users/'' @ capturePattern @ ''/?$''"
    by code_simp
  have n: "routeParamNames ''users//{id}/'' = [''id'']"
    by code_simp
  have "case regexp_Compile (''^/users/'' @ capturePattern @ ''/?$'') of Inl e \<Rightarrow> False | Inr re \<Rightarrow> True"
    by code_simp
  then obtain re where re: "regexp_Compile (''^/users/'' @ capturePattern @ ''/?$'') = Inr re"
    by (auto split: sum.splits)
  from newRoute_pattern [of "''users//{id}/''" "7::nat", THEN conjunct2, THEN conjunct2, THEN conjunct1]
  have "newRoute ''users//{id}/'' (7::nat) = Inr \<lparr>regex = re, paramNames = [''id''], handler = 7\<rparr>"
    by (simp only: p n re sum.case)
  with p n re show ?thesis by blast
qed

section \<open>Matching a path built from a template\<close>





















section \<open>Parameter names and capturing groups\<close>






end
